theory Spec2Isabelle
  imports Complex_Main "HOL-Library.Word"
begin

section \<open>Data model of \<open>pkg/data_handler.go\<close>\<close>

text \<open>
  Go's \<open>int\<close> is taken at its 64-bit width: a two's complement word whose
  arithmetic wraps; \<open>sint\<close> reads its signed value.
\<close>

type_synonym go_int = "64 word"

text \<open>
  \<open>DataPoint\<close>: the five OHLCV values. The type \<open>'f\<close> stands for \<open>float64\<close>;
  the code only stores and copies these values. The embedded \<open>Event\<close> is declared
  in another file of the package and is left at its zero value by every function
  here, so it is not carried in the record.
\<close>

record 'f DataPoint =
  Open :: 'f
  High :: 'f
  Low :: 'f
  Close :: 'f
  Volume :: 'f

text \<open>
  \<open>DataHandler\<close>. A Go slice is modelled by the list of its elements; the nil
  slice and the empty slice both have length 0 and are the list \<open>[]\<close>.
\<close>

record 'f DataHandler =
  counter :: go_int
  windowSize :: go_int
  prices :: "'f DataPoint list"

record 'f AggregatedDataPoints =
  datapoints :: "'f DataPoint list"

text \<open>
  What a call can do besides returning: a run-time panic (an index or slice bound
  out of range), or ending the process (\<open>log.Fatal\<close>).
\<close>

datatype 'a outcome = Returned 'a | Panicked | Exited

section \<open>The windowed stream\<close>

definition newDataHandler :: "'f DataPoint list \<Rightarrow> go_int \<Rightarrow> 'f DataHandler" where
  "newDataHandler ps w = \<lparr>counter = w, windowSize = w, prices = ps\<rparr>"

text \<open>
  The slice expression \<open>s[lo:hi]\<close>: Go panics unless \<open>0 \<le> lo \<le> hi \<le> cap(s)\<close>.
  The capacity is taken equal to the length; in \<open>nextValues\<close> the upper bound is
  below the length whenever the expression is evaluated, so the capacity never
  decides.
\<close>

definition slice :: "'a list \<Rightarrow> int \<Rightarrow> int \<Rightarrow> 'a list option" where
  "slice s lo hi =
     (if 0 \<le> lo \<and> lo \<le> hi \<and> hi \<le> int (length s)
      then Some (take (nat (hi - lo)) (drop (nat lo) s))
      else None)"

text \<open>
  \<open>nextValues\<close> returns the pointer result (\<open>None\<close> for nil) together with the
  handler after the call.
\<close>

definition nextValues ::
  "'f DataHandler \<Rightarrow> ('f AggregatedDataPoints option \<times> 'f DataHandler) outcome" where
  "nextValues handler =
     (if sint (counter handler) < int (length (prices handler)) then
        (case slice (prices handler)
                (sint (counter handler - windowSize handler)) (sint (counter handler)) of
           None \<Rightarrow> Panicked
         | Some dps \<Rightarrow>
             Returned (Some \<lparr>datapoints = dps\<rparr>,
                       handler\<lparr>counter := counter handler + 1\<rparr>))
      else Returned (None, handler))"

text \<open>
  The consumer's side: \<open>calls n h\<close> makes \<open>n\<close> successive calls of \<open>nextValues\<close>,
  starting at \<open>h\<close>, and returns the results in order with the final handler; a
  panic ends the run.
\<close>

fun calls ::
  "nat \<Rightarrow> 'f DataHandler \<Rightarrow> ('f AggregatedDataPoints option list \<times> 'f DataHandler) outcome" where
  "calls 0 h = Returned ([], h)"
| "calls (Suc n) h =
     (case nextValues h of
        Returned (r, h') \<Rightarrow>
          (case calls n h' of
             Returned (rs, h'') \<Rightarrow> Returned (r # rs, h'')
           | Panicked \<Rightarrow> Panicked
           | Exited \<Rightarrow> Exited)
      | Panicked \<Rightarrow> Panicked
      | Exited \<Rightarrow> Exited)"

text \<open>
  The states a stream can be in: the one \<open>newDataHandler\<close> builds, and every state
  a returning call of \<open>nextValues\<close> leaves behind.
\<close>

inductive reachable :: "'f DataHandler \<Rightarrow> bool" where
  init: "reachable (newDataHandler ps w)"
| step: "reachable h \<Longrightarrow> nextValues h = Returned (r, h') \<Longrightarrow> reachable h'"

text \<open>A Go slice never holds more than \<open>2^63 - 1\<close> elements.\<close>

definition go_len :: "'a list \<Rightarrow> bool" where
  "go_len s \<longleftrightarrow> int (length s) \<le> 2 ^ 63 - 1"

section \<open>Ingestion: \<open>PricesFromCSV\<close>\<close>

text \<open>
  The two errors the function builds with \<open>fmt.Errorf\<close>: the fixed message about
  the header and its expected columns, and the message about an invalid parameter,
  which quotes the string that failed to parse.
\<close>

datatype go_error = HeaderError | InvalidParameter string

subsection \<open>The library calls\<close>

text \<open>
  \<open>encoding/csv\<close> splits the file into records; that splitting is the library's
  work. A file is given here by the records the reader will meet, in order: the
  fields of a record it can parse, or \<open>Malformed\<close> for one it cannot (a bare
  quote, for instance). The file system maps a path to the file's content, or to
  \<open>None\<close> when \<open>os.Open\<close> fails.
\<close>

datatype raw_record = Fields "string list" | Malformed

type_synonym filesystem = "string \<Rightarrow> raw_record list option"

text \<open>\<open>os.Open\<close>: the file, or nil with an error (which the caller drops).\<close>

definition os_Open :: "filesystem \<Rightarrow> string \<Rightarrow> raw_record list option" where
  "os_Open fs path = fs path"

datatype read_error = ErrFieldCount | ErrParse | ErrInvalid

datatype read_result = Record "string list" | EOF | Failed read_error

record Reader =
  FieldsPerRecord :: nat
  source :: "raw_record list option"

text \<open>\<open>csv.NewReader\<close> leaves \<open>FieldsPerRecord\<close> at 0.\<close>

definition NewReader :: "raw_record list option \<Rightarrow> Reader" where
  "NewReader file = \<lparr>FieldsPerRecord = 0, source = file\<rparr>"

text \<open>
  \<open>Reader.Read\<close>: reading from a nil file fails; at the end of the file the result
  is \<open>io.EOF\<close>; with \<open>FieldsPerRecord\<close> at 0 the first record fixes the number of
  fields, and a later record with another number of fields is the error
  \<open>ErrFieldCount\<close>.
\<close>

definition csv_Read :: "Reader \<Rightarrow> read_result \<times> Reader" where
  "csv_Read r =
     (case source r of
        None \<Rightarrow> (Failed ErrInvalid, r)
      | Some [] \<Rightarrow> (EOF, r)
      | Some (Malformed # rest) \<Rightarrow> (Failed ErrParse, r\<lparr>source := Some rest\<rparr>)
      | Some (Fields cs # rest) \<Rightarrow>
          (if 0 < FieldsPerRecord r then
             (if length cs \<noteq> FieldsPerRecord r then Failed ErrFieldCount else Record cs,
              r\<lparr>source := Some rest\<rparr>)
           else (Record cs, r\<lparr>FieldsPerRecord := length cs, source := Some rest\<rparr>)))"

text \<open>The number of records the reader has still to meet.\<close>

definition remaining :: "Reader \<Rightarrow> nat" where
  "remaining r = (case source r of None \<Rightarrow> 0 | Some rs \<Rightarrow> length rs)"

subsection \<open>The functions of the file\<close>

definition csvColumns :: "string list" where
  "csvColumns = [''open'', ''high'', ''low'', ''close'', ''volume'']"

text \<open>
  \<open>strToFloat\<close>, over \<open>strconv.ParseFloat\<close> as the parameter \<open>parseFloat\<close>
  (\<open>None\<close> when it returns an error). On an error Go returns the pair of \<open>-1\<close> and
  the error; the caller reads the number only when the error is nil.
\<close>

definition strToFloat :: "(string \<Rightarrow> 'f option) \<Rightarrow> string \<Rightarrow> go_error + 'f" where
  "strToFloat parseFloat str =
     (case parseFloat str of
        Some number \<Rightarrow> Inr number
      | None \<Rightarrow> Inl (InvalidParameter str))"

text \<open>
  \<open>isCSVHeaderValid\<close>: the loop \<open>for i, column := range csvColumns\<close>, with the
  index expression \<open>firstLine[i]\<close> panicking out of range. \<open>strings.ToLower\<close> is
  the parameter \<open>toLower\<close>.
\<close>

fun columns_loop :: "(string \<Rightarrow> string) \<Rightarrow> string list \<Rightarrow> nat \<Rightarrow> string list \<Rightarrow> bool outcome" where
  "columns_loop toLower firstLine i [] = Returned True"
| "columns_loop toLower firstLine i (column # rest) =
     (if i < length firstLine then
        (if toLower (firstLine ! i) \<noteq> column then Returned False
         else columns_loop toLower firstLine (i + 1) rest)
      else Panicked)"

definition isCSVHeaderValid :: "(string \<Rightarrow> string) \<Rightarrow> string list \<Rightarrow> bool outcome" where
  "isCSVHeaderValid toLower firstLine = columns_loop toLower firstLine 0 csvColumns"

text \<open>
  The condition \<open>error != nil || !isCSVHeaderValid(line)\<close> on the first read:
  the header is only looked at when the read gave no error.
\<close>

definition header_rejected :: "(string \<Rightarrow> string) \<Rightarrow> read_result \<Rightarrow> bool outcome" where
  "header_rejected toLower res =
     (case res of
        Record line \<Rightarrow>
          (case isCSVHeaderValid toLower line of
             Returned b \<Rightarrow> Returned (\<not> b)
           | Panicked \<Rightarrow> Panicked
           | Exited \<Rightarrow> Exited)
      | EOF \<Rightarrow> Returned True
      | Failed e \<Rightarrow> Returned True)"

text \<open>
  The loop \<open>for i := 0; i < 5; i++\<close> over the cells of a row; \<open>numbers\<close> is the
  array \<open>[5]float64\<close>, all zero at first.
\<close>

function cells_loop ::
  "(string \<Rightarrow> 'f option) \<Rightarrow> string list \<Rightarrow> nat \<Rightarrow> 'f list \<Rightarrow> (go_error + 'f list) outcome" where
  "cells_loop parseFloat line i numbers =
     (if i < 5 then
        (if i < length line then
           (case strToFloat parseFloat (line ! i) of
              Inl err \<Rightarrow> Returned (Inl err)
            | Inr v \<Rightarrow> cells_loop parseFloat line (i + 1) (numbers[i := v]))
         else Panicked)
      else Returned (Inr numbers))"
  by pat_completeness auto
termination
  by (relation "measure (\<lambda>(parseFloat, line, i, numbers). 5 - i)") auto

text \<open>
  The loop over the data rows, with the slice \<open>prices\<close> built so far: it ends at
  \<open>io.EOF\<close>, calls \<open>log.Fatal\<close> on any other read error, and returns the error of
  the first cell that does not parse.
\<close>

function rows_loop ::
  "(string \<Rightarrow> 'f::zero option) \<Rightarrow> Reader \<Rightarrow> 'f DataPoint list \<Rightarrow> (go_error + 'f DataPoint list) outcome" where
  "rows_loop parseFloat reader ps =
     (case csv_Read reader of
        (EOF, reader') \<Rightarrow> Returned (Inr ps)
      | (Failed e, reader') \<Rightarrow> Exited
      | (Record line, reader') \<Rightarrow>
          (case cells_loop parseFloat line 0 (replicate 5 0) of
             Panicked \<Rightarrow> Panicked
           | Exited \<Rightarrow> Exited
           | Returned (Inl err) \<Rightarrow> Returned (Inl err)
           | Returned (Inr numbers) \<Rightarrow>
               rows_loop parseFloat reader'
                 (ps @ [\<lparr>Open = numbers ! 0, High = numbers ! 1, Low = numbers ! 2,
                         Close = numbers ! 3, Volume = numbers ! 4\<rparr>])))"
  by pat_completeness auto
termination
proof (relation "measure (\<lambda>(parseFloat, reader, ps). remaining reader)")
  show "wf (measure (\<lambda>(parseFloat :: string \<Rightarrow> 'f option, reader, ps :: 'f DataPoint list).
          remaining reader))"
    by simp
next
  fix parseFloat :: "string \<Rightarrow> 'f option" and reader x reader' line
    and ps :: "'f DataPoint list"
  assume "(x, reader') = csv_Read reader" and "x = Record line"
  then have "csv_Read reader = (Record line, reader')"
    by simp
  then have "remaining reader' < remaining reader"
    by (auto simp: csv_Read_def remaining_def
        split: option.splits list.splits raw_record.splits if_splits)
  then show "((parseFloat, reader', ps @ [\<lparr>Open = n ! 0, High = n ! 1, Low = n ! 2,
                 Close = n ! 3, Volume = n ! 4\<rparr>]), parseFloat, reader, ps)
      \<in> measure (\<lambda>(parseFloat, reader, ps). remaining reader)" for n
    by simp
qed

text \<open>
  Lines 82 to 110: the rows are read, and the handler is built with the window
  size 5.
\<close>

definition read_rows ::
  "(string \<Rightarrow> 'f::zero option) \<Rightarrow> Reader \<Rightarrow> ('f DataHandler option \<times> go_error option) outcome" where
  "read_rows parseFloat reader =
     (case rows_loop parseFloat reader [] of
        Panicked \<Rightarrow> Panicked
      | Exited \<Rightarrow> Exited
      | Returned (Inl err) \<Rightarrow> Returned (None, Some err)
      | Returned (Inr ps) \<Rightarrow> Returned (Some (newDataHandler ps 5), None))"

text \<open>
  \<open>PricesFromCSV\<close> returns the pair of the handler pointer and the error, each
  \<open>None\<close> for nil.
\<close>

definition PricesFromCSV ::
  "(string \<Rightarrow> string) \<Rightarrow> (string \<Rightarrow> 'f::zero option) \<Rightarrow> filesystem \<Rightarrow> string
     \<Rightarrow> ('f DataHandler option \<times> go_error option) outcome" where
  "PricesFromCSV toLower parseFloat fs csvFilePath =
     (let csvFile = os_Open fs csvFilePath;
          reader = NewReader csvFile
      in case csv_Read reader of
           (res, reader') \<Rightarrow>
             (case header_rejected toLower res of
                Panicked \<Rightarrow> Panicked
              | Exited \<Rightarrow> Exited
              | Returned True \<Rightarrow> Returned (None, Some HeaderError)
              | Returned False \<Rightarrow> read_rows parseFloat reader'))"

section \<open>Instances for concrete runs\<close>

text \<open>
  For runs on concrete files the two library parameters are instantiated:
  \<open>strings.ToLower\<close> by its action on ASCII text, and \<open>strconv.ParseFloat\<close> by
  its values on the tokens that occur in the runs below (\<open>abc\<close>, like every token
  outside the table, is an error).
\<close>

definition ascii_lower :: "char \<Rightarrow> char" where
  "ascii_lower c =
     (case map_of (zip ''ABCDEFGHIJKLMNOPQRSTUVWXYZ'' ''abcdefghijklmnopqrstuvwxyz'') c of
        Some l \<Rightarrow> l
      | None \<Rightarrow> c)"

definition ascii_ToLower :: "string \<Rightarrow> string" where
  "ascii_ToLower str = map ascii_lower str"

definition sample_ParseFloat :: "string \<Rightarrow> real option" where
  "sample_ParseFloat =
     map_of [(''1'', 1), (''2'', 2), (''3'', 3), (''0.5'', 1 / 2), (''1.5'', 3 / 2),
             (''2.5'', 5 / 2), (''1.0'', 1), (''2.0'', 2), (''3.0'', 3),
             (''100'', 100), (''150'', 150), (''200'', 200)]"

text \<open>Three price bars: the rows of the specification's scenario.\<close>

definition bar1 :: "real DataPoint" where
  "bar1 = \<lparr>Open = 1, High = 2, Low = 1 / 2, Close = 3 / 2, Volume = 100\<rparr>"

definition bar2 :: "real DataPoint" where
  "bar2 = \<lparr>Open = 3 / 2, High = 5 / 2, Low = 1, Close = 2, Volume = 150\<rparr>"

definition bar3 :: "real DataPoint" where
  "bar3 = \<lparr>Open = 2, High = 3, Low = 3 / 2, Close = 5 / 2, Volume = 200\<rparr>"

text \<open>The cursor property of the reachable states, used in the proofs below.\<close>

definition stream_inv :: "'f DataHandler \<Rightarrow> bool" where
  "stream_inv h \<longleftrightarrow>
     (sint (windowSize h) < 0 \<and> counter h = windowSize h) \<or>
     (0 \<le> sint (windowSize h) \<and> sint (windowSize h) \<le> sint (counter h) \<and>
      sint (counter h) \<le> max (sint (windowSize h)) (int (length (prices h))))"

text \<open>The first cell, in reading order, that \<open>parseFloat\<close> rejects.\<close>

definition first_invalid :: "(string \<Rightarrow> 'f option) \<Rightarrow> string list \<Rightarrow> string option" where
  "first_invalid parseFloat cells = find (\<lambda>c. parseFloat c = None) cells"

text \<open>The data point made of the first five cells of a row.\<close>

definition row_point :: "(string \<Rightarrow> 'f option) \<Rightarrow> string list \<Rightarrow> 'f DataPoint" where
  "row_point parseFloat line =
     \<lparr>Open = the (parseFloat (line ! 0)), High = the (parseFloat (line ! 1)),
      Low = the (parseFloat (line ! 2)), Close = the (parseFloat (line ! 3)),
      Volume = the (parseFloat (line ! 4))\<rparr>"

section \<open>Properties of the windowed stream\<close>

declare cells_loop.simps [simp del]
declare rows_loop.simps [simp del]

lemma sint_inc: "sint (c :: go_int) < 2 ^ 63 - 1 \<Longrightarrow> sint (c + 1) = sint c + 1"
  using sint_ge [of c]
  by (simp add: sint_word_ariths signed_take_bit_int_eq_self)

lemma sint_sub:
  "0 \<le> sint (w :: go_int) \<Longrightarrow> sint w \<le> sint c \<Longrightarrow> sint (c - w) = sint c - sint w"
  using sint_lt [of c] sint_ge [of c]
  by (simp add: sint_word_ariths signed_take_bit_int_eq_self)

lemma nextValues_exhausted:
  "\<not> sint (counter h) < int (length (prices h)) \<Longrightarrow> nextValues h = Returned (None, h)"
  by (simp add: nextValues_def)

lemma nextValues_None:
  "nextValues h = Returned (None, h') \<Longrightarrow>
     h' = h \<and> \<not> sint (counter h) < int (length (prices h))"
  by (auto simp: nextValues_def split: if_splits option.splits)

lemma nextValues_fields:
  "nextValues h = Returned (r, h') \<Longrightarrow> prices h' = prices h \<and> windowSize h' = windowSize h"
  by (auto simp: nextValues_def split: if_splits option.splits)

lemma calls_exhausted:
  "\<not> sint (counter h) < int (length (prices h)) \<Longrightarrow>
     calls n h = Returned (replicate n None, h)"
  by (induction n) (simp_all add: nextValues_exhausted)

lemma nextValues_negative:
  "sint (windowSize h) < 0 \<Longrightarrow> counter h = windowSize h \<Longrightarrow> nextValues h = Panicked"
  by (simp add: nextValues_def slice_def)

lemma nextValues_window:
  assumes "0 \<le> sint (windowSize h)" and "sint (windowSize h) \<le> sint (counter h)"
    and "sint (counter h) < int (length (prices h))"
  shows "nextValues h =
     Returned (Some \<lparr>datapoints = take (nat (sint (windowSize h)))
                        (drop (nat (sint (counter h) - sint (windowSize h))) (prices h))\<rparr>,
               h\<lparr>counter := counter h + 1\<rparr>)"
  using assms by (simp add: nextValues_def slice_def sint_sub)

lemma stream_inv_init: "stream_inv (newDataHandler ps w)"
  by (auto simp: stream_inv_def newDataHandler_def)

lemma stream_inv_step:
  assumes "stream_inv h" and "go_len (prices h)" and "nextValues h = Returned (r, h')"
  shows "stream_inv h'"
proof (cases "sint (counter h) < int (length (prices h))")
  case False
  then have "h' = h" using assms(3) by (simp add: nextValues_def)
  then show ?thesis using assms(1) by simp
next
  case True
  have nonneg: "0 \<le> sint (windowSize h)"
    using assms(1,3) nextValues_negative [of h] by (auto simp: stream_inv_def)
  then have le: "sint (windowSize h) \<le> sint (counter h)"
    using assms(1) by (simp add: stream_inv_def)
  have "sint (counter h) < 2 ^ 63 - 1"
    using True assms(2) by (simp add: go_len_def)
  then have inc: "sint (counter h + 1) = sint (counter h) + 1"
    by (rule sint_inc)
  have h': "h' = h\<lparr>counter := counter h + 1\<rparr>"
    using assms(3) True by (auto simp: nextValues_def split: option.splits)
  show ?thesis
    using nonneg le inc True by (simp add: h' stream_inv_def)
qed

lemma reachable_inv: "reachable h \<Longrightarrow> go_len (prices h) \<Longrightarrow> stream_inv h"
proof (induction rule: reachable.induct)
  case (init ps w)
  show ?case by (rule stream_inv_init)
next
  case (step h r h')
  have "prices h' = prices h" using step.hyps(2) by (simp add: nextValues_fields)
  then show ?case using step stream_inv_step [of h r h'] by simp
qed

lemma calls_add:
  "calls m h = Returned (rs, h') \<Longrightarrow>
     calls (m + n) h =
       (case calls n h' of Returned (rs', h'') \<Rightarrow> Returned (rs @ rs', h'')
        | Panicked \<Rightarrow> Panicked | Exited \<Rightarrow> Exited)"
proof (induction m arbitrary: h rs)
  case 0
  then show ?case by (auto split: outcome.splits)
next
  case (Suc m)
  then show ?case
    by (auto split: outcome.splits prod.splits)
qed

lemma calls_windows:
  assumes "0 \<le> sint (windowSize h)" and "sint (windowSize h) \<le> sint (counter h)"
    and "go_len (prices h)" and "sint (counter h) + int k \<le> int (length (prices h))"
  shows "calls k h =
     Returned (map (\<lambda>j. Some \<lparr>datapoints = take (nat (sint (windowSize h)))
                 (drop (nat (sint (counter h) - sint (windowSize h)) + j) (prices h))\<rparr>) [0..<k],
               h\<lparr>counter := counter h + of_nat k\<rparr>)"
  using assms
proof (induction k arbitrary: h)
  case 0
  then show ?case by simp
next
  case (Suc k)
  let ?h = "h\<lparr>counter := counter h + 1\<rparr>"
  have lt: "sint (counter h) < int (length (prices h))"
    using Suc.prems(4) by simp
  then have "sint (counter h) < 2 ^ 63 - 1"
    using Suc.prems(3) by (simp add: go_len_def)
  then have inc: "sint (counter h + 1) = sint (counter h) + 1"
    by (rule sint_inc)
  have nv: "nextValues h =
     Returned (Some \<lparr>datapoints = take (nat (sint (windowSize h)))
                        (drop (nat (sint (counter h) - sint (windowSize h))) (prices h))\<rparr>, ?h)"
    using Suc.prems(1,2) lt by (rule nextValues_window)
  have rest: "calls k ?h =
     Returned (map (\<lambda>j. Some \<lparr>datapoints = take (nat (sint (windowSize ?h)))
                 (drop (nat (sint (counter ?h) - sint (windowSize ?h)) + j) (prices ?h))\<rparr>) [0..<k],
               ?h\<lparr>counter := counter ?h + of_nat k\<rparr>)"
    using Suc.prems inc by (intro Suc.IH) simp_all
  have idx: "nat (sint (counter h) + 1 - sint (windowSize h)) + j
      = nat (sint (counter h) - sint (windowSize h)) + Suc j" for j
    using Suc.prems(1,2) by simp
  have upt: "[0..<Suc k] = 0 # map Suc [0..<k]"
    by (simp add: upt_conv_Cons map_Suc_upt del: upt_Suc)
  show ?case
    unfolding upt
    by (simp add: nv rest inc idx o_def add.assoc del: upt_Suc)
qed

lemma stream_delivers:
  assumes "0 \<le> sint w" and "sint w \<le> int (length ps)" and "go_len ps"
  shows "calls (length ps - nat (sint w) + 1) (newDataHandler ps w) =
     Returned (map (\<lambda>k. Some \<lparr>datapoints = take (nat (sint w)) (drop k ps)\<rparr>)
                 [0..<length ps - nat (sint w)] @ [None],
               \<lparr>counter = of_nat (length ps), windowSize = w, prices = ps\<rparr>)"
proof -
  let ?n = "length ps - nat (sint w)"
  let ?h = "newDataHandler ps w"
  let ?h' = "?h\<lparr>counter := counter ?h + of_nat ?n\<rparr>"
  have c: "calls ?n ?h =
     Returned (map (\<lambda>j. Some \<lparr>datapoints = take (nat (sint (windowSize ?h)))
                 (drop (nat (sint (counter ?h) - sint (windowSize ?h)) + j) (prices ?h))\<rparr>) [0..<?n],
               ?h')"
    using assms by (intro calls_windows) (simp_all add: newDataHandler_def)
  have "w + of_nat ?n = (of_nat (length ps) :: go_int)"
  proof -
    have "w = of_nat (nat (sint w))" using assms(1) by simp
    then have "w + of_nat ?n = (of_nat (nat (sint w)) + of_nat ?n :: go_int)" by simp
    also have "\<dots> = of_nat (nat (sint w) + ?n)" by simp
    also have "nat (sint w) + ?n = length ps" using assms(1,2) by simp
    finally show ?thesis .
  qed
  then have h': "?h' = \<lparr>counter = of_nat (length ps), windowSize = w, prices = ps\<rparr>"
    by (simp add: newDataHandler_def)
  have "sint (of_nat (length ps) :: go_int) = int (length ps)"
    using assms(3) by (simp add: go_len_def signed_of_nat signed_take_bit_int_eq_self) 
  then have ex: "nextValues ?h' = Returned (None, ?h')"
    by (simp add: h' nextValues_exhausted)
  show ?thesis
    using calls_add [OF c, of 1] ex h'
    by (simp add: newDataHandler_def)
qed

text \<open>
  C1. On a series of \<open>N\<close> rows with window size \<open>W \<le> N\<close> the stream is claimed to
  deliver \<open>N - W + 1\<close> windows. The code compares \<open>counter < len(prices)\<close>, so the
  window that ends at the last row is never delivered (\<open>stream_delivers\<close> above:
  \<open>N - W\<close> windows, the \<open>k\<close>-th being \<open>series[k : k+W]\<close>, then nil). On the scenario
  of the specification, three rows and \<open>W = 2\<close>, three calls return the window of
  the first two rows, then nil, then nil: the second window is missing.
\<close>

theorem scenario_delivers_one_window:
  "calls 3 (newDataHandler [bar1, bar2, bar3] 2) =
     Returned ([Some \<lparr>datapoints = [bar1, bar2]\<rparr>, None, None],
               \<lparr>counter = 3, windowSize = 2, prices = [bar1, bar2, bar3]\<rparr>)"
  by (simp add: numeral_3_eq_3 nextValues_def slice_def newDataHandler_def)

text \<open>
  C2. At every state of a stream built with a window size \<open>W \<ge> 0\<close> over a Go
  slice: if the cursor \<open>c\<close> is below \<open>len(series)\<close>, \<open>nextValues\<close> returns the
  window \<open>series[c-W : c]\<close> (the \<open>W\<close> elements from index \<open>c - W\<close> on) and adds 1 to
  the cursor, without overflow; otherwise it returns nil and leaves the state as it
  is.
\<close>

theorem nextValues_step:
  assumes "reachable h" and "0 \<le> sint (windowSize h)" and "go_len (prices h)"
  shows "nextValues h =
     (if sint (counter h) < int (length (prices h))
      then Returned (Some \<lparr>datapoints = take (nat (sint (windowSize h)))
                        (drop (nat (sint (counter h) - sint (windowSize h))) (prices h))\<rparr>,
               h\<lparr>counter := counter h + 1\<rparr>)
      else Returned (None, h))
   \<and> (sint (counter h) < int (length (prices h)) \<longrightarrow>
        sint (counter h + 1) = sint (counter h) + 1)"
proof -
  have "stream_inv h" using assms(1,3) by (rule reachable_inv)
  then have le: "sint (windowSize h) \<le> sint (counter h)"
    using assms(2) by (auto simp: stream_inv_def)
  have "sint (counter h + 1) = sint (counter h) + 1"
    if "sint (counter h) < int (length (prices h))"
    using that assms(3) by (intro sint_inc) (simp add: go_len_def)
  then show ?thesis
    using nextValues_window [OF assms(2) le] nextValues_exhausted [of h] by simp
qed

theorem nextValues_step_witness:
  "reachable (newDataHandler [bar1, bar2, bar3] 2)
   \<and> 0 \<le> sint (windowSize (newDataHandler [bar1, bar2, bar3] 2))
   \<and> go_len (prices (newDataHandler [bar1, bar2, bar3] 2))
   \<and> nextValues (newDataHandler [bar1, bar2, bar3] 2) =
       Returned (Some \<lparr>datapoints = [bar1, bar2]\<rparr>,
                 \<lparr>counter = 3, windowSize = 2, prices = [bar1, bar2, bar3]\<rparr>)"
proof -
  let ?h = "newDataHandler [bar1, bar2, bar3] 2"
  have r: "reachable ?h" by (rule reachable.init)
  have w: "0 \<le> sint (windowSize ?h)" by (simp add: newDataHandler_def)
  have g: "go_len (prices ?h)" by (simp add: newDataHandler_def go_len_def)
  show ?thesis
    using r w g nextValues_step [OF r w g] by (simp add: newDataHandler_def)
qed

text \<open>
  C3. When the series is shorter than the window size, \<open>newDataHandler\<close> still
  builds a handler, the first call of \<open>nextValues\<close> returns nil, and so does every
  later call: no window is ever produced.
\<close>

theorem short_series_exhausted:
  assumes "int (length ps) < sint w"
  shows "nextValues (newDataHandler ps w) = Returned (None, newDataHandler ps w)
       \<and> calls n (newDataHandler ps w) = Returned (replicate n None, newDataHandler ps w)"
proof -
  have "\<not> sint (counter (newDataHandler ps w)) < int (length (prices (newDataHandler ps w)))"
    using assms by (simp add: newDataHandler_def)
  then show ?thesis
    by (simp add: nextValues_exhausted calls_exhausted)
qed

theorem short_series_exhausted_witness:
  "int (length [bar1]) < sint (5 :: go_int)
   \<and> nextValues (newDataHandler [bar1] 5) = Returned (None, newDataHandler [bar1] 5)
   \<and> calls 3 (newDataHandler [bar1] 5) = Returned ([None, None, None], newDataHandler [bar1] 5)"
proof -
  have h: "int (length [bar1]) < sint (5 :: go_int)" by simp
  show ?thesis
    using h short_series_exhausted [OF h, of 3] by (simp add: numeral_3_eq_3)
qed

text \<open>
  C4. Once \<open>nextValues\<close> has returned nil, the state is unchanged and every later
  call returns nil as well: no window, no panic.
\<close>

theorem exhaustion_terminal:
  assumes "nextValues h = Returned (None, h')"
  shows "h' = h \<and> calls n h' = Returned (replicate n None, h')"
  using assms nextValues_None [OF assms] by (simp add: calls_exhausted)

theorem exhaustion_terminal_witness:
  "nextValues \<lparr>counter = 3, windowSize = 2, prices = [bar1, bar2, bar3]\<rparr> =
     Returned (None, \<lparr>counter = 3, windowSize = 2, prices = [bar1, bar2, bar3]\<rparr>)
   \<and> calls 2 \<lparr>counter = 3, windowSize = 2, prices = [bar1, bar2, bar3]\<rparr> =
     Returned ([None, None], \<lparr>counter = 3, windowSize = 2, prices = [bar1, bar2, bar3]\<rparr>)"
proof -
  let ?h = "\<lparr>counter = 3, windowSize = 2, prices = [bar1, bar2, bar3]\<rparr>"
  have e: "nextValues ?h = Returned (None, ?h)" by (simp add: nextValues_def)
  show ?thesis
    using e exhaustion_terminal [OF e, of 2] by (simp add: numeral_2_eq_2)
qed

text \<open>
  C8, as stated, fails: with the window size \<open>-1\<close>, below 1, \<open>newDataHandler\<close>
  returns a handler like for any other size, and the failure comes at the first
  call of \<open>nextValues\<close>, which panics.
\<close>

theorem construction_unchecked_counterexample:
  "newDataHandler [bar1] (- 1) = \<lparr>counter = - 1, windowSize = - 1, prices = [bar1]\<rparr>
   \<and> sint (- 1 :: go_int) < 1
   \<and> nextValues (newDataHandler [bar1] (- 1)) = Panicked"
  by (simp add: newDataHandler_def nextValues_def slice_def)

text \<open>
  C8, amended. \<open>newDataHandler\<close> checks nothing and reports nothing: for every
  window size and every series (nil is the empty list) it returns the handler with
  that window size, the cursor equal to it, and that series. With a negative window
  size the failure is deferred to the first call of \<open>nextValues\<close>, which panics on
  the slice bounds.
\<close>

theorem construction_unchecked:
  "counter (newDataHandler ps w) = w \<and> windowSize (newDataHandler ps w) = w
   \<and> prices (newDataHandler ps w) = ps
   \<and> (sint w < 0 \<longrightarrow> nextValues (newDataHandler ps w) = Panicked)"
  by (simp add: newDataHandler_def nextValues_negative)

theorem construction_unchecked_witness:
  "sint (- 3 :: go_int) < 0 \<and> nextValues (newDataHandler [bar1, bar2] (- 3)) = Panicked"
  using construction_unchecked [of "[bar1, bar2]" "- 3"] by simp

lemma zero_window_empty:
  "ps \<noteq> [] \<Longrightarrow> nextValues (newDataHandler ps 0) =
     Returned (Some \<lparr>datapoints = []\<rparr>, \<lparr>counter = 1, windowSize = 0, prices = ps\<rparr>)"
  by (simp add: newDataHandler_def nextValues_def slice_def)

lemma nil_series_exhausted:
  "0 \<le> sint w \<Longrightarrow> nextValues (newDataHandler [] w) = Returned (None, newDataHandler [] w)"
  by (simp add: newDataHandler_def nextValues_def)

text \<open>
  C9, as stated, fails: right after construction over an empty series with window
  size 5 the cursor is 5, above \<open>len(series) = 0\<close>.
\<close>

theorem cursor_bounds_counterexample:
  "reachable (newDataHandler ([] :: real DataPoint list) 5)
   \<and> \<not> (sint (windowSize (newDataHandler ([] :: real DataPoint list) 5))
          \<le> sint (counter (newDataHandler ([] :: real DataPoint list) 5))
        \<and> sint (counter (newDataHandler ([] :: real DataPoint list) 5))
          \<le> int (length (prices (newDataHandler ([] :: real DataPoint list) 5))))"
  by (simp add: reachable.init) (simp add: newDataHandler_def)

text \<open>
  C9, amended. At every reachable state of a stream over a Go slice the cursor
  satisfies \<open>W \<le> c \<le> max(W, len(series))\<close>; so \<open>W \<le> c \<le> len(series)\<close> whenever the
  series has at least \<open>W\<close> rows.
\<close>

theorem cursor_bounds:
  assumes "reachable h" and "go_len (prices h)"
  shows "sint (windowSize h) \<le> sint (counter h)
       \<and> sint (counter h) \<le> max (sint (windowSize h)) (int (length (prices h)))"
  using reachable_inv [OF assms] by (auto simp: stream_inv_def)

theorem cursor_bounds_witness:
  "reachable \<lparr>counter = 3, windowSize = 2, prices = [bar1, bar2, bar3]\<rparr>
   \<and> go_len (prices \<lparr>counter = 3, windowSize = 2, prices = [bar1, bar2, bar3]\<rparr>)
   \<and> sint (2 :: go_int) \<le> sint (3 :: go_int) \<and> sint (3 :: go_int) \<le> max (sint (2 :: go_int)) 3"
proof -
  let ?start = "newDataHandler [bar1, bar2, bar3] 2"
  let ?h = "\<lparr>counter = 3, windowSize = 2, prices = [bar1, bar2, bar3]\<rparr>"
  have "nextValues ?start = Returned (Some \<lparr>datapoints = [bar1, bar2]\<rparr>, ?h)"
    by (simp add: newDataHandler_def nextValues_def slice_def)
  then have r: "reachable ?h"
    using reachable.init [of "[bar1, bar2, bar3]" 2] by (rule reachable.step [rotated])
  have g: "go_len (prices ?h)" by (simp add: go_len_def)
  show ?thesis
    using r g cursor_bounds [OF r g] by simp
qed

section \<open>Properties of the ingestion\<close>

lemma length_csvColumns: "length csvColumns = 5"
  by (simp add: csvColumns_def)

lemma columns_loop_in_range:
  "i + length cols \<le> length line \<Longrightarrow>
     columns_loop toLower line i cols =
       Returned (map toLower (take (length cols) (drop i line)) = cols)"
proof (induction cols arbitrary: i)
  case Nil
  then show ?case by simp
next
  case (Cons column rest)
  then have i: "i < length line" by simp
  then have d: "drop i line = line ! i # drop (Suc i) line"
    by (simp add: Cons_nth_drop_Suc)
  show ?case
    using Cons.prems i by (auto simp: d Cons.IH)
qed

lemma isCSVHeaderValid_five:
  "5 \<le> length line \<Longrightarrow>
     isCSVHeaderValid toLower line = Returned (map toLower (take 5 line) = csvColumns)"
  using columns_loop_in_range [of 0 csvColumns line toLower]
  by (simp add: isCSVHeaderValid_def length_csvColumns)

lemma columns_loop_True:
  "columns_loop toLower line i cols = Returned True \<Longrightarrow> i \<le> length line \<Longrightarrow>
     i + length cols \<le> length line"
proof (induction cols arbitrary: i)
  case Nil
  then show ?case by simp
next
  case (Cons column rest)
  from Cons.prems have "i < length line"
    and "columns_loop toLower line (i + 1) rest = Returned True"
    by (auto split: if_splits)
  then show ?case using Cons.IH [of "i + 1"] by simp
qed

lemma isCSVHeaderValid_True:
  "isCSVHeaderValid toLower line = Returned True \<Longrightarrow> 5 \<le> length line"
  using columns_loop_True [of toLower line 0 csvColumns]
  by (simp add: isCSVHeaderValid_def length_csvColumns)

lemma columns_loop_short:
  "i \<le> length line \<Longrightarrow> length line < i + length cols \<Longrightarrow>
     columns_loop toLower line i cols =
       (if map toLower (drop i line) = take (length line - i) cols then Panicked
        else Returned False)"
proof (induction cols arbitrary: i)
  case Nil
  then show ?case by simp
next
  case (Cons column rest)
  show ?case
  proof (cases "i < length line")
    case False
    then show ?thesis using Cons.prems by simp
  next
    case True
    then have d: "drop i line = line ! i # drop (Suc i) line"
      by (simp add: Cons_nth_drop_Suc)
    have s: "length line - i = Suc (length line - Suc i)"
      using True by simp
    show ?thesis
      using Cons.prems True by (auto simp: d s Cons.IH)
  qed
qed

lemma isCSVHeaderValid_short:
  "length line < 5 \<Longrightarrow>
     isCSVHeaderValid toLower line =
       (if map toLower line = take (length line) csvColumns then Panicked else Returned False)"
  using columns_loop_short [of 0 line csvColumns toLower]
  by (simp add: isCSVHeaderValid_def length_csvColumns)

lemma first_invalid_Cons:
  "first_invalid pf (c # cs) = (if pf c = None then Some c else first_invalid pf cs)"
  by (simp add: first_invalid_def)

lemma first_invalid_append:
  "first_invalid pf (xs @ ys) =
     (case first_invalid pf xs of Some t \<Rightarrow> Some t | None \<Rightarrow> first_invalid pf ys)"
  by (induction xs) (simp_all add: first_invalid_def)

lemma cells_loop_run:
  "i \<le> 5 \<Longrightarrow> 5 \<le> length line \<Longrightarrow> length numbers = 5 \<Longrightarrow>
     cells_loop pf line i numbers =
       (case first_invalid pf (take (5 - i) (drop i line)) of
          Some tok \<Rightarrow> Returned (Inl (InvalidParameter tok))
        | None \<Rightarrow> Returned (Inr (take i numbers @ map (\<lambda>c. the (pf c)) (take (5 - i) (drop i line)))))"
proof (induction pf line i numbers rule: cells_loop.induct)
  case (1 pf line i numbers)
  show ?case
  proof (cases "i < 5")
    case False
    then have "i = 5" using "1.prems" by simp
    then show ?thesis
      using "1.prems" by (simp add: cells_loop.simps first_invalid_def)
  next
    case True
    then have il: "i < length line" using "1.prems" by simp
    then have d: "drop i line = line ! i # drop (Suc i) line"
      by (simp add: Cons_nth_drop_Suc)
    have s: "5 - i = Suc (5 - Suc i)" using True by simp
    show ?thesis
    proof (cases "pf (line ! i)")
      case None
      then show ?thesis
        using True il
        by (subst cells_loop.simps) (simp add: d s strToFloat_def first_invalid_Cons)
    next
      case (Some v)
      then have st: "strToFloat pf (line ! i) = Inr v"
        by (simp add: strToFloat_def)
      have t: "take (Suc i) (numbers[i := v]) = take i numbers @ [v]"
        using True "1.prems" by (simp add: take_Suc_conv_app_nth)
      have "cells_loop pf line i numbers = cells_loop pf line (i + 1) (numbers[i := v])"
        using True il st by (subst cells_loop.simps) simp
      also have "\<dots> = (case first_invalid pf (take (5 - (i + 1)) (drop (i + 1) line)) of
          Some tok \<Rightarrow> Returned (Inl (InvalidParameter tok))
        | None \<Rightarrow> Returned (Inr (take (i + 1) (numbers[i := v])
                     @ map (\<lambda>c. the (pf c)) (take (5 - (i + 1)) (drop (i + 1) line)))))"
        using True il st "1.prems" by (intro "1.IH") simp_all
      finally show ?thesis
        using Some by (simp add: d s t first_invalid_Cons cong: option.case_cong)
    qed
  qed
qed

lemma cells_loop_row:
  assumes "5 \<le> length line"
  shows "cells_loop pf line 0 (replicate 5 0) =
       (case first_invalid pf (take 5 line) of
          Some tok \<Rightarrow> Returned (Inl (InvalidParameter tok))
        | None \<Rightarrow> Returned (Inr (map (\<lambda>c. the (pf c)) (take 5 line))))"
  using cells_loop_run [of 0 line "replicate 5 0" pf] assms
  by (simp cong: option.case_cong)

lemma row_point_nth:
  assumes "5 \<le> length line"
  shows "\<lparr>Open = map (\<lambda>c. the (pf c)) (take 5 line) ! 0,
          High = map (\<lambda>c. the (pf c)) (take 5 line) ! Suc 0,
          Low = map (\<lambda>c. the (pf c)) (take 5 line) ! 2,
          Close = map (\<lambda>c. the (pf c)) (take 5 line) ! 3,
          Volume = map (\<lambda>c. the (pf c)) (take 5 line) ! 4\<rparr> = row_point pf line"
  using assms by (simp add: row_point_def)

lemma rows_loop_run:
  assumes "5 \<le> FieldsPerRecord r"
    and "source r = Some (map Fields rows)"
    and "\<forall>row \<in> set rows. length row = FieldsPerRecord r"
  shows "rows_loop pf r acc =
       (case first_invalid pf (concat (map (take 5) rows)) of
          Some tok \<Rightarrow> Returned (Inl (InvalidParameter tok))
        | None \<Rightarrow> Returned (Inr (acc @ map (row_point pf) rows)))"
  using assms
proof (induction rows arbitrary: r acc)
  case Nil
  then show ?case
    by (subst rows_loop.simps) (simp add: csv_Read_def first_invalid_def)
next
  case (Cons row rows)
  let ?r = "r\<lparr>source := Some (map Fields rows)\<rparr>"
  have len: "5 \<le> length row" using Cons.prems by simp
  have rd: "csv_Read r = (Record row, ?r)"
    using Cons.prems by (simp add: csv_Read_def)
  show ?case
  proof (cases "first_invalid pf (take 5 row)")
    case (Some tok)
    then show ?thesis
      by (subst rows_loop.simps)
         (simp add: rd cells_loop_row [OF len] first_invalid_append)
  next
    case None
    have ih: "rows_loop pf ?r (acc @ [row_point pf row]) =
       (case first_invalid pf (concat (map (take 5) rows)) of
          Some tok \<Rightarrow> Returned (Inl (InvalidParameter tok))
        | None \<Rightarrow> Returned (Inr ((acc @ [row_point pf row]) @ map (row_point pf) rows)))"
      using Cons.prems by (intro Cons.IH) simp_all
    show ?thesis
      by (subst rows_loop.simps)
         (simp add: rd cells_loop_row [OF len] None first_invalid_append
            row_point_nth [OF len] ih cong: option.case_cong)
  qed
qed

lemma cells_loop_error:
  "cells_loop pf line i numbers = Returned (Inl e) \<Longrightarrow> \<exists>s. e = InvalidParameter s"
proof (induction pf line i numbers rule: cells_loop.induct)
  case (1 pf line i numbers)
  from "1.prems" show ?case
    by (subst (asm) cells_loop.simps)
       (auto simp: strToFloat_def split: if_splits option.splits sum.splits dest: "1.IH")
qed

lemma rows_loop_error:
  "rows_loop pf r acc = Returned (Inl e) \<Longrightarrow> \<exists>s. e = InvalidParameter s"
proof (induction pf r acc rule: rows_loop.induct)
  case (1 pf reader ps)
  obtain res r' where rd: "csv_Read reader = (res, r')"
    by (cases "csv_Read reader")
  have run: "rows_loop pf reader ps = Returned (Inl e)" by (rule "1.prems")
  show ?case
  proof (cases res)
    case (Record line)
    show ?thesis
    proof (cases "cells_loop pf line 0 (replicate 5 0)")
      case (Returned x)
      show ?thesis
      proof (cases x)
        case (Inl err)
        then have "e = err"
          using run by (subst (asm) rows_loop.simps) (simp add: rd Record Returned)
        then show ?thesis
          using Returned Inl cells_loop_error by blast
      next
        case (Inr numbers)
        have "rows_loop pf r'
                 (ps @ [\<lparr>Open = numbers ! 0, High = numbers ! 1, Low = numbers ! 2,
                         Close = numbers ! 3, Volume = numbers ! 4\<rparr>]) = Returned (Inl e)"
          using run by (subst (asm) rows_loop.simps) (simp add: rd Record Returned Inr)
        then show ?thesis
          using "1.IH" [OF rd [symmetric] Record Returned Inr] by simp
      qed
    next
      case Panicked
      then show ?thesis
        using run by (subst (asm) rows_loop.simps) (simp add: rd Record)
    next
      case Exited
      then show ?thesis
        using run by (subst (asm) rows_loop.simps) (simp add: rd Record)
    qed
  next
    case EOF
    then show ?thesis
      using run by (subst (asm) rows_loop.simps) (simp add: rd)
  next
    case (Failed err)
    then show ?thesis
      using run by (subst (asm) rows_loop.simps) (simp add: rd)
  qed
qed

lemma PricesFromCSV_first_read:
  assumes "csv_Read (NewReader (os_Open fs path)) = (res, reader')"
  shows "PricesFromCSV toLower pf fs path =
     (case header_rejected toLower res of
        Panicked \<Rightarrow> Panicked
      | Exited \<Rightarrow> Exited
      | Returned True \<Rightarrow> Returned (None, Some HeaderError)
      | Returned False \<Rightarrow> read_rows pf reader')"
  using assms by (simp add: PricesFromCSV_def)

lemma read_rows_not_HeaderError:
  "read_rows pf r \<noteq> Returned (None, Some HeaderError)"
proof
  assume a: "read_rows pf r = Returned (None, Some HeaderError)"
  then have "rows_loop pf r [] = Returned (Inl HeaderError)"
    by (auto simp: read_rows_def split: outcome.splits sum.splits)
  then show False
    using rows_loop_error by fastforce
qed

text \<open>
  C5, amended. Let the first read give a record that has at least five cells, or
  fewer cells of which one differs, lowercased, from the column at its position.
  Then \<open>PricesFromCSV\<close> returns the header error (and no handler) exactly when the
  first five cells, lowercased, are not \<open>open, high, low, close, volume\<close> in this
  order, and goes on to read the rows when they are; cells after the fifth are not
  looked at. When the first read gives no record (empty or unreadable source) the
  result is the header error.
\<close>

theorem header_validation:
  assumes "csv_Read (NewReader (os_Open fs path)) = (res, reader')"
  shows "case res of
       Record line \<Rightarrow>
         5 \<le> length line \<or> map toLower line \<noteq> take (length line) csvColumns \<longrightarrow>
           (PricesFromCSV toLower pf fs path = Returned (None, Some HeaderError))
             = (map toLower (take 5 line) \<noteq> csvColumns)
           \<and> (map toLower (take 5 line) = csvColumns \<longrightarrow>
                PricesFromCSV toLower pf fs path = read_rows pf reader')
     | EOF \<Rightarrow> PricesFromCSV toLower pf fs path = Returned (None, Some HeaderError)
     | Failed e \<Rightarrow> PricesFromCSV toLower pf fs path = Returned (None, Some HeaderError)"
proof (cases res)
  case (Record line)
  show ?thesis
  proof (cases "5 \<le> length line")
    case long: True
    show ?thesis
    proof (cases "map toLower (take 5 line) = csvColumns")
      case True
      then show ?thesis
        using read_rows_not_HeaderError [of pf reader'] long
        by (simp add: Record PricesFromCSV_first_read [OF assms] header_rejected_def
            isCSVHeaderValid_five)
    next
      case False
      then show ?thesis
        using long
        by (simp add: Record PricesFromCSV_first_read [OF assms] header_rejected_def
            isCSVHeaderValid_five)
    qed
  next
    case False
    then have short: "length line < 5" by simp
    then have "length (map toLower (take 5 line)) \<noteq> length csvColumns"
      by (simp add: length_csvColumns)
    then have ne: "map toLower (take 5 line) \<noteq> csvColumns"
      by fastforce
    show ?thesis
      using short ne
      by (simp add: Record PricesFromCSV_first_read [OF assms] header_rejected_def
          isCSVHeaderValid_short)
  qed
next
  case EOF
  then show ?thesis
    by (simp add: PricesFromCSV_first_read [OF assms] header_rejected_def)
next
  case (Failed e)
  then show ?thesis
    by (simp add: PricesFromCSV_first_read [OF assms] header_rejected_def)
qed

lemma first_read_header:
  "csv_Read (NewReader (Some (Fields header # rest))) =
     (Record header, \<lparr>FieldsPerRecord = length header, source = Some rest\<rparr>)"
  by (simp add: csv_Read_def NewReader_def)

theorem header_validation_witness:
  "csv_Read (NewReader (os_Open
       (\<lambda>p. Some [Fields [''Open'', ''High'', ''Low'', ''Close'', ''Volume'']]) ''prices.csv''))
     = (Record [''Open'', ''High'', ''Low'', ''Close'', ''Volume''],
        \<lparr>FieldsPerRecord = 5, source = Some []\<rparr>)
   \<and> 5 \<le> length [''Open'', ''High'', ''Low'', ''Close'', ''Volume'']
   \<and> PricesFromCSV ascii_ToLower sample_ParseFloat
       (\<lambda>p. Some [Fields [''Open'', ''High'', ''Low'', ''Close'', ''Volume'']]) ''prices.csv''
     = read_rows sample_ParseFloat \<lparr>FieldsPerRecord = 5, source = Some []\<rparr>
   \<and> csv_Read (NewReader (os_Open
       (\<lambda>p. Some [Fields [''volume'', ''close'', ''low'', ''high'', ''open'']]) ''prices.csv''))
     = (Record [''volume'', ''close'', ''low'', ''high'', ''open''],
        \<lparr>FieldsPerRecord = 5, source = Some []\<rparr>)
   \<and> PricesFromCSV ascii_ToLower sample_ParseFloat
       (\<lambda>p. Some [Fields [''volume'', ''close'', ''low'', ''high'', ''open'']]) ''prices.csv''
     = Returned (None, Some HeaderError)
   \<and> csv_Read (NewReader (os_Open (\<lambda>p. Some [Fields [''open'', ''price'']]) ''prices.csv''))
     = (Record [''open'', ''price''], \<lparr>FieldsPerRecord = 2, source = Some []\<rparr>)
   \<and> map ascii_ToLower [''open'', ''price''] \<noteq> take (length [''open'', ''price'']) csvColumns
   \<and> PricesFromCSV ascii_ToLower sample_ParseFloat
       (\<lambda>p. Some [Fields [''open'', ''price'']]) ''prices.csv''
     = Returned (None, Some HeaderError)"
proof -
  let ?good = "[''Open'', ''High'', ''Low'', ''Close'', ''Volume'']"
  let ?bad = "[''volume'', ''close'', ''low'', ''high'', ''open'']"
  let ?short = "[''open'', ''price'']"
  let ?r = "\<lparr>FieldsPerRecord = 5, source = Some []\<rparr>"
  have g: "csv_Read (NewReader (os_Open (\<lambda>p. Some [Fields ?good]) ''prices.csv''))
     = (Record ?good, ?r)"
    by (simp add: os_Open_def first_read_header)
  have b: "csv_Read (NewReader (os_Open (\<lambda>p. Some [Fields ?bad]) ''prices.csv''))
     = (Record ?bad, ?r)"
    by (simp add: os_Open_def first_read_header)
  have s: "csv_Read (NewReader (os_Open (\<lambda>p. Some [Fields ?short]) ''prices.csv''))
     = (Record ?short, \<lparr>FieldsPerRecord = 2, source = Some []\<rparr>)"
    by (simp add: os_Open_def first_read_header)
  have lg: "map ascii_ToLower (take 5 ?good) = csvColumns"
    by (simp add: ascii_ToLower_def ascii_lower_def csvColumns_def)
  have lb: "map ascii_ToLower (take 5 ?bad) \<noteq> csvColumns"
    by (simp add: ascii_ToLower_def ascii_lower_def csvColumns_def)
  have ls: "map ascii_ToLower ?short \<noteq> take (length ?short) csvColumns"
    by (simp add: ascii_ToLower_def ascii_lower_def csvColumns_def)
  have ls5: "map ascii_ToLower (take 5 ?short) \<noteq> csvColumns"
    by (simp add: csvColumns_def)
  show ?thesis
    using g b s lg lb ls ls5
      header_validation [OF g, of ascii_ToLower sample_ParseFloat]
      header_validation [OF b, of ascii_ToLower sample_ParseFloat]
      header_validation [OF s, of ascii_ToLower sample_ParseFloat]
    by simp
qed

lemma PricesFromCSV_header:
  assumes "fs path = Some (Fields header # rest)"
  shows "PricesFromCSV toLower pf fs path =
     (case isCSVHeaderValid toLower header of
        Returned True \<Rightarrow>
          read_rows pf \<lparr>FieldsPerRecord = length header, source = Some rest\<rparr>
      | Returned False \<Rightarrow> Returned (None, Some HeaderError)
      | Panicked \<Rightarrow> Panicked
      | Exited \<Rightarrow> Exited)"
  using assms
  by (auto simp: PricesFromCSV_def os_Open_def first_read_header header_rejected_def
      split: outcome.splits bool.splits)

text \<open>
  C5, as stated, fails: a first line of six cells, whose first five are the
  expected columns, does not consist of exactly the five tokens, and yet passes the
  header validation and the ingestion succeeds.
\<close>

theorem header_validation_counterexample:
  "length [''open'', ''high'', ''low'', ''close'', ''volume'', ''extra''] \<noteq> 5
   \<and> isCSVHeaderValid ascii_ToLower
       [''open'', ''high'', ''low'', ''close'', ''volume'', ''extra''] = Returned True
   \<and> PricesFromCSV ascii_ToLower sample_ParseFloat
       (\<lambda>p. Some [Fields [''open'', ''high'', ''low'', ''close'', ''volume'', ''extra'']])
       ''prices.csv''
     = Returned (Some \<lparr>counter = 5, windowSize = 5, prices = []\<rparr>, None)"
proof -
  let ?header = "[''open'', ''high'', ''low'', ''close'', ''volume'', ''extra'']"
  have v: "isCSVHeaderValid ascii_ToLower ?header = Returned True"
    by (simp add: isCSVHeaderValid_def csvColumns_def ascii_ToLower_def ascii_lower_def)
  have "read_rows sample_ParseFloat \<lparr>FieldsPerRecord = length ?header, source = Some []\<rparr>
      = Returned (Some \<lparr>counter = 5, windowSize = 5, prices = []\<rparr>, None)"
    by (simp add: read_rows_def rows_loop.simps csv_Read_def newDataHandler_def)
  then show ?thesis
    using v by (simp add: PricesFromCSV_header [where rest = "[]"])
qed

lemma header_prefix_panics:
  "PricesFromCSV ascii_ToLower sample_ParseFloat
       (\<lambda>p. Some [Fields [''open'', ''high'']]) ''prices.csv'' = Panicked"
proof -
  have "isCSVHeaderValid ascii_ToLower [''open'', ''high''] = Panicked"
    by (simp add: isCSVHeaderValid_def csvColumns_def ascii_ToLower_def ascii_lower_def)
  then show ?thesis
    by (simp add: PricesFromCSV_header [where rest = "[]"])
qed

lemma rows_loop_read_failure:
  "csv_Read r = (Failed e, r') \<Longrightarrow> rows_loop pf r acc = Exited"
  by (subst rows_loop.simps) simp

lemma open_failure_header_error:
  "fs path = None \<Longrightarrow> PricesFromCSV toLower pf fs path = Returned (None, Some HeaderError)"
  by (simp add: PricesFromCSV_def os_Open_def NewReader_def csv_Read_def header_rejected_def)

text \<open>
  C7. A failure while reading a data row is claimed to reach the caller as an error
  return. After the header \<open>open,high,low,close,volume\<close> a row of three cells makes
  the reader return \<open>ErrFieldCount\<close>, and the code calls \<open>log.Fatal\<close>: the process
  ends and \<open>PricesFromCSV\<close> returns nothing. (A source that cannot be opened gives
  the header error, \<open>open_failure_header_error\<close> above.)
\<close>

theorem short_row_exits:
  "PricesFromCSV ascii_ToLower sample_ParseFloat
       (\<lambda>p. Some [Fields [''open'', ''high'', ''low'', ''close'', ''volume''],
                   Fields [''1'', ''2'', ''3'']])
       ''prices.csv'' = Exited"
proof -
  let ?header = "[''open'', ''high'', ''low'', ''close'', ''volume'']"
  have v: "isCSVHeaderValid ascii_ToLower ?header = Returned True"
    by (simp add: isCSVHeaderValid_def csvColumns_def ascii_ToLower_def ascii_lower_def)
  have "csv_Read \<lparr>FieldsPerRecord = length ?header,
                  source = Some [Fields [''1'', ''2'', ''3'']]\<rparr>
      = (Failed ErrFieldCount, \<lparr>FieldsPerRecord = length ?header, source = Some []\<rparr>)"
    by (simp add: csv_Read_def)
  then have "read_rows sample_ParseFloat
       \<lparr>FieldsPerRecord = length ?header, source = Some [Fields [''1'', ''2'', ''3'']]\<rparr>
      = Exited"
    by (simp add: read_rows_def rows_loop_read_failure)
  then show ?thesis
    using v by (simp add: PricesFromCSV_header [where rest = "[Fields [''1'', ''2'', ''3'']]"])
qed

lemma invalid_cell_general:
  assumes "os_Open fs path = Some (Fields header # map Fields rows)"
    and "isCSVHeaderValid toLower header = Returned True"
    and "\<forall>row \<in> set rows. length row = length header"
    and "row \<in> set rows" and "cell \<in> set (take 5 row)" and "pf cell = None"
  shows "\<exists>tok. first_invalid pf (concat (map (take 5) rows)) = Some tok
           \<and> pf tok = None
           \<and> PricesFromCSV toLower pf fs path = Returned (None, Some (InvalidParameter tok))"
proof -
  let ?r = "\<lparr>FieldsPerRecord = length header, source = Some (map Fields rows)\<rparr>"
  have len: "5 \<le> length header"
    using assms(2) by (rule isCSVHeaderValid_True)
  have "cell \<in> set (concat (map (take 5) rows))"
    using assms(4,5) by auto
  then have "first_invalid pf (concat (map (take 5) rows)) \<noteq> None"
    using assms(6) by (auto simp: first_invalid_def find_None_iff)
  then obtain tok where tok: "first_invalid pf (concat (map (take 5) rows)) = Some tok"
    by blast
  then have bad: "pf tok = None"
    by (auto simp: first_invalid_def find_Some_iff)
  have "rows_loop pf ?r [] = Returned (Inl (InvalidParameter tok))"
    using len assms(3) tok by (subst rows_loop_run [where rows = rows]) simp_all
  then have "read_rows pf ?r = Returned (None, Some (InvalidParameter tok))"
    by (simp add: read_rows_def)
  then have "PricesFromCSV toLower pf fs path = Returned (None, Some (InvalidParameter tok))"
    using assms(1,2)
    by (simp add: PricesFromCSV_header [where rest = "map Fields rows"] os_Open_def)
  then show ?thesis using tok bad by simp
qed

lemma sixth_cell_unchecked:
  "PricesFromCSV ascii_ToLower sample_ParseFloat
       (\<lambda>p. Some [Fields [''open'', ''high'', ''low'', ''close'', ''volume'', ''note''],
                   Fields [''1'', ''2'', ''0.5'', ''1.5'', ''100'', ''abc'']]) ''prices.csv''
     = Returned (Some \<lparr>counter = 5, windowSize = 5, prices = [bar1]\<rparr>, None)"
proof -
  let ?header = "[''open'', ''high'', ''low'', ''close'', ''volume'', ''note'']"
  let ?row = "[''1'', ''2'', ''0.5'', ''1.5'', ''100'', ''abc'']"
  let ?r = "\<lparr>FieldsPerRecord = length ?header, source = Some (map Fields [?row])\<rparr>"
  have v: "isCSVHeaderValid ascii_ToLower ?header = Returned True"
    by (simp add: isCSVHeaderValid_def csvColumns_def ascii_ToLower_def ascii_lower_def)
  have "first_invalid sample_ParseFloat (concat (map (take 5) [?row])) = None"
    by (simp add: first_invalid_def sample_ParseFloat_def)
  then have "rows_loop sample_ParseFloat ?r []
      = Returned (Inr ([] @ map (row_point sample_ParseFloat) [?row]))"
    by (subst rows_loop_run [where rows = "[?row]"]) simp_all
  moreover have "row_point sample_ParseFloat ?row = bar1"
    by (simp add: row_point_def sample_ParseFloat_def bar1_def)
  ultimately have "read_rows sample_ParseFloat ?r
      = Returned (Some \<lparr>counter = 5, windowSize = 5, prices = [bar1]\<rparr>, None)"
    by (simp add: read_rows_def newDataHandler_def)
  then show ?thesis
    using v by (simp add: PricesFromCSV_header [where rest = "[Fields ?row]"])
qed

text \<open>
  C6. In a file with a valid header of five cells and rows of five cells each, a
  row with a cell that \<open>parseFloat\<close> rejects makes \<open>PricesFromCSV\<close> return the
  invalid-parameter error that quotes the first rejected token in reading order,
  and no handler: the ingestion is aborted, no row is skipped.
\<close>

theorem invalid_cell_aborts:
  assumes "os_Open fs path = Some (Fields header # map Fields rows)"
    and "isCSVHeaderValid toLower header = Returned True"
    and "length header = 5"
    and "\<forall>row \<in> set rows. length row = 5"
    and "row \<in> set rows" and "cell \<in> set row" and "pf cell = None"
  shows "\<exists>tok. first_invalid pf (concat rows) = Some tok
           \<and> pf tok = None
           \<and> PricesFromCSV toLower pf fs path = Returned (None, Some (InvalidParameter tok))"
proof -
  have same: "\<forall>row \<in> set rows. length row = length header"
    using assms(3,4) by simp
  have "take 5 row = row" using assms(4,5) by simp
  then have inrow: "cell \<in> set (take 5 row)" using assms(6) by simp
  have "map (take 5) rows = rows"
    using assms(4) by (simp add: map_idI)
  then show ?thesis
    using invalid_cell_general [where pf = pf and cell = cell,
        OF assms(1,2) same assms(5) inrow assms(7)]
    by simp
qed

theorem invalid_cell_aborts_witness:
  "os_Open (\<lambda>p. Some [Fields [''open'', ''high'', ''low'', ''close'', ''volume''],
                      Fields [''1.0'', ''2.0'', ''abc'', ''3.0'', ''100'']]) ''prices.csv''
     = Some (Fields [''open'', ''high'', ''low'', ''close'', ''volume'']
             # map Fields [[''1.0'', ''2.0'', ''abc'', ''3.0'', ''100'']])
   \<and> isCSVHeaderValid ascii_ToLower [''open'', ''high'', ''low'', ''close'', ''volume'']
     = Returned True
   \<and> sample_ParseFloat ''abc'' = None
   \<and> PricesFromCSV ascii_ToLower sample_ParseFloat
       (\<lambda>p. Some [Fields [''open'', ''high'', ''low'', ''close'', ''volume''],
                   Fields [''1.0'', ''2.0'', ''abc'', ''3.0'', ''100'']]) ''prices.csv''
     = Returned (None, Some (InvalidParameter ''abc''))"
proof -
  let ?header = "[''open'', ''high'', ''low'', ''close'', ''volume'']"
  let ?row = "[''1.0'', ''2.0'', ''abc'', ''3.0'', ''100'']"
  let ?fs = "\<lambda>p :: string. Some [Fields ?header, Fields ?row]"
  have a1: "os_Open ?fs ''prices.csv'' = Some (Fields ?header # map Fields [?row])"
    by (simp add: os_Open_def)
  have a2: "isCSVHeaderValid ascii_ToLower ?header = Returned True"
    by (simp add: isCSVHeaderValid_def csvColumns_def ascii_ToLower_def ascii_lower_def)
  have a3: "length ?header = 5" by simp
  have a4: "\<forall>row \<in> set [?row]. length row = 5" by simp
  have a5: "?row \<in> set [?row]" by simp
  have a6: "''abc'' \<in> set ?row" by simp
  have a7: "sample_ParseFloat ''abc'' = None" by (simp add: sample_ParseFloat_def)
  have f: "first_invalid sample_ParseFloat (concat [?row]) = Some ''abc''"
    by (simp add: first_invalid_def sample_ParseFloat_def)
  show ?thesis
    using a1 a2 a7 f
      invalid_cell_aborts [where rows = "[?row]" and row = ?row and cell = "''abc''"
        and pf = sample_ParseFloat, OF a1 a2 a3 a4 a5 a6 a7]
    by simp
qed

text \<open>
  C10. Every handler that \<open>PricesFromCSV\<close> returns has window size 5 and cursor 5,
  and comes with a nil error, whatever the source.
\<close>

theorem handler_window_five:
  assumes "PricesFromCSV toLower pf fs path = Returned (Some h, e)"
  shows "windowSize h = 5 \<and> counter h = 5 \<and> e = None"
proof -
  obtain res r' where rd: "csv_Read (NewReader (os_Open fs path)) = (res, r')"
    by (cases "csv_Read (NewReader (os_Open fs path))")
  have "read_rows pf r' = Returned (Some h, e)"
    using assms
    by (auto simp: PricesFromCSV_first_read [OF rd] split: outcome.splits bool.splits)
  then obtain ps where "h = newDataHandler ps 5" and "e = None"
    by (auto simp: read_rows_def split: outcome.splits sum.splits)
  then show ?thesis by (simp add: newDataHandler_def)
qed

theorem handler_window_five_witness:
  "PricesFromCSV ascii_ToLower sample_ParseFloat
       (\<lambda>p. Some [Fields [''open'', ''high'', ''low'', ''close'', ''volume''],
                   Fields [''1'', ''2'', ''0.5'', ''1.5'', ''100'']]) ''prices.csv''
     = Returned (Some \<lparr>counter = 5, windowSize = 5, prices = [bar1]\<rparr>, None)
   \<and> windowSize \<lparr>counter = 5, windowSize = 5, prices = [bar1]\<rparr> = 5
   \<and> counter \<lparr>counter = 5, windowSize = 5, prices = [bar1]\<rparr> = 5"
proof -
  let ?header = "[''open'', ''high'', ''low'', ''close'', ''volume'']"
  let ?row = "[''1'', ''2'', ''0.5'', ''1.5'', ''100'']"
  let ?r = "\<lparr>FieldsPerRecord = length ?header, source = Some (map Fields [?row])\<rparr>"
  have v: "isCSVHeaderValid ascii_ToLower ?header = Returned True"
    by (simp add: isCSVHeaderValid_def csvColumns_def ascii_ToLower_def ascii_lower_def)
  have "first_invalid sample_ParseFloat (concat (map (take 5) [?row])) = None"
    by (simp add: first_invalid_def sample_ParseFloat_def)
  then have "rows_loop sample_ParseFloat ?r [] = Returned (Inr ([] @ map (row_point sample_ParseFloat) [?row]))"
    by (subst rows_loop_run [where rows = "[?row]"]) simp_all
  moreover have "row_point sample_ParseFloat ?row = bar1"
    by (simp add: row_point_def sample_ParseFloat_def bar1_def)
  ultimately have "read_rows sample_ParseFloat ?r
      = Returned (Some \<lparr>counter = 5, windowSize = 5, prices = [bar1]\<rparr>, None)"
    by (simp add: read_rows_def newDataHandler_def)
  then have run: "PricesFromCSV ascii_ToLower sample_ParseFloat
       (\<lambda>p. Some [Fields ?header, Fields ?row]) ''prices.csv''
     = Returned (Some \<lparr>counter = 5, windowSize = 5, prices = [bar1]\<rparr>, None)"
    using v by (simp add: PricesFromCSV_def os_Open_def first_read_header header_rejected_def)
  show ?thesis
    using run handler_window_five [OF run] by simp
qed

end
